theory Spec2Isabelle
  imports Main "HOL-Library.Multiset"
begin

section \<open>The object pool of object-pool.h\<close>

text \<open>
  \<^verbatim>\<open>SharedPool<T>\<close> keeps its idle resources in
  \<^verbatim>\<open>std::stack<std::unique_ptr<T>> m_pool\<close>. A \<^verbatim>\<open>std::unique_ptr<T>\<close> either owns
  the object at some address or is empty (\<^verbatim>\<open>nullptr\<close>), so it is an optional address;
  a raw \<^verbatim>\<open>T*\<close> is the same. The stack is a list whose head is the top.

  Pool objects live in a store indexed by their address: the deleter that
  \<^verbatim>\<open>Acquire\<close> builds captures \<^verbatim>\<open>this\<close>, and what it does later depends on which pool
  object that address names. Every member function therefore takes \<^verbatim>\<open>this\<close> and the
  store, and returns the store it leaves behind.
\<close>

type_synonym 'a unique_ptr = "'a option"

record 'a SharedPool =
  m_pool :: "'a unique_ptr list"

type_synonym 'a store = "nat \<Rightarrow> 'a SharedPool"

text \<open>
  \<^verbatim>\<open>assert(!m_pool.empty())\<close> aborts the process when it fails (the build with
  assertions enabled is the one modelled); the abort is the value \<open>PoolExhausted\<close>.
  \<open>IllFormed\<close> is not an outcome of the pool: it marks a client trace that no program
  can perform (see \<open>step\<close> below).
\<close>

datatype error = PoolExhausted | IllFormed

text \<open>
  \<^verbatim>\<open>ptrType = std::unique_ptr<T, std::function<void(T*)>>\<close>: the raw pointer it holds
  and its deleter. The only deleter ever stored is the lambda of \<^verbatim>\<open>Acquire\<close>, whose one
  capture is \<^verbatim>\<open>this\<close>; the lease records that capture, and \<open>deleter\<close> is the lambda's body.
\<close>

record 'a ptrType =
  get :: "'a option"
  capture_this :: nat

text \<open>\<^verbatim>\<open>void Add(std::unique_ptr<T> t) { m_pool.push(std::move(t)); }\<close>\<close>

definition Add :: "nat \<Rightarrow> 'a unique_ptr \<Rightarrow> 'a store \<Rightarrow> 'a store" where
  "Add this t st = st(this := (st this)\<lparr>m_pool := t # m_pool (st this)\<rparr>)"

text \<open>\<^verbatim>\<open>[this](T* ptr) { this->Add(std::unique_ptr<T>(ptr)); }\<close>\<close>

definition deleter :: "nat \<Rightarrow> 'a \<Rightarrow> 'a store \<Rightarrow> 'a store" where
  "deleter this ptr st = Add this (Some ptr) st"

text \<open>
  \<^verbatim>\<open>Acquire\<close>: the assertion first; then \<^verbatim>\<open>m_pool.top().release()\<close> hands the top's
  pointer to \<^verbatim>\<open>tmp\<close> (leaving the top empty, so that \<^verbatim>\<open>m_pool.pop()\<close> destroys an empty
  \<^verbatim>\<open>unique_ptr\<close> and deletes nothing), and \<^verbatim>\<open>tmp\<close> is returned. When the assertion
  fails nothing has been written yet: the store at the abort is the store of the call.
\<close>

definition Acquire :: "nat \<Rightarrow> 'a store \<Rightarrow> (error + 'a ptrType) \<times> 'a store" where
  "Acquire this st =
     (if m_pool (st this) = [] then (Inl PoolExhausted, st)
      else
        let tmp = \<lparr>get = hd (m_pool (st this)), capture_this = this\<rparr>
        in (Inr tmp, st(this := (st this)\<lparr>m_pool := tl (m_pool (st this))\<rparr>)))"

text \<open>\<^verbatim>\<open>bool Empty() const { return m_pool.empty(); }\<close>\<close>

definition Empty :: "nat \<Rightarrow> 'a store \<Rightarrow> bool \<times> 'a store" where
  "Empty this st = (m_pool (st this) = [], st)"

text \<open>\<^verbatim>\<open>size_t Size() const { return m_pool.size(); }\<close>\<close>

definition Size :: "nat \<Rightarrow> 'a store \<Rightarrow> nat \<times> 'a store" where
  "Size this st = (length (m_pool (st this)), st)"

text \<open>
  The end of a lease is the destructor of \<^verbatim>\<open>std::unique_ptr\<close>: it calls the deleter on
  the held pointer when that pointer is not null, and does nothing otherwise.
\<close>

definition ptrType_dtor :: "'a ptrType \<Rightarrow> 'a store \<Rightarrow> 'a store" where
  "ptrType_dtor l st =
     (case get l of None \<Rightarrow> st | Some ptr \<Rightarrow> deleter (capture_this l) ptr st)"

text \<open>\<^verbatim>\<open>SharedPool() {}\<close>: every pool starts with an empty stack.\<close>

definition new_store :: "'a store" where
  "new_store = (\<lambda>_. \<lparr>m_pool = []\<rparr>)"

section \<open>Clients of the pool\<close>

text \<open>
  The claims about sequences of calls need the callers' side: the resource objects
  that exist, and the leases that are in scope. Objects are stored in \<open>heap\<close>, the
  address of an object being its index; \<open>live\<close> binds the name of each \<^verbatim>\<open>ptrType\<close>
  variable in scope to its value.
\<close>

record 'v world =
  heap :: "'v list"
  pools :: "nat store"
  live :: "(nat \<times> nat ptrType) list"

text \<open>
  The statements a client can perform on pool \<open>r\<close> and lease variable \<open>h\<close>:
  \<^item> \<open>OpAdd r (Some v)\<close> is \<^verbatim>\<open>r.Add(std::make_unique<T>(v))\<close>: a \<^verbatim>\<open>unique_ptr\<close> passed to
    \<^verbatim>\<open>Add\<close> is the sole owner of its object, so the object is new to the pool;
  \<^item> \<open>OpAdd r None\<close> is \<^verbatim>\<open>r.Add(nullptr)\<close>, which the signature of \<^verbatim>\<open>Add\<close> admits;
  \<^item> \<open>OpAcquire r h\<close> is \<^verbatim>\<open>ptrType h = r.Acquire();\<close>
  \<^item> \<open>OpUse h f\<close> applies \<open>f\<close> to the object behind \<open>h\<close> (\<^verbatim>\<open>h->UseResource()\<close>, whose
    body is not part of the header, is such an \<open>f\<close>);
  \<^item> \<open>OpRelease h\<close> is the end of the scope of \<open>h\<close>.
\<close>

datatype 'v op =
  OpAdd nat "'v option"
| OpAcquire nat nat
| OpUse nat "'v \<Rightarrow> 'v"
| OpRelease nat

fun drop_handle :: "nat \<Rightarrow> (nat \<times> 'b) list \<Rightarrow> (nat \<times> 'b) list" where
  "drop_handle h [] = []"
| "drop_handle h ((k, l) # ls) = (if k = h then ls else (k, l) # drop_handle h ls)"

text \<open>
  One statement. A variable cannot be declared twice nor used outside its scope, and
  dereferencing an empty lease is undefined: such traces are \<open>IllFormed\<close>.
\<close>

fun step :: "'v world \<Rightarrow> 'v op \<Rightarrow> error + 'v world" where
  "step w (OpAdd r None) = Inr (w\<lparr>pools := Add r None (pools w)\<rparr>)"
| "step w (OpAdd r (Some v)) =
     Inr (w\<lparr>heap := heap w @ [v], pools := Add r (Some (length (heap w))) (pools w)\<rparr>)"
| "step w (OpAcquire r h) =
     (case map_of (live w) h of
        Some l \<Rightarrow> Inl IllFormed
      | None \<Rightarrow>
          (case Acquire r (pools w) of
             (Inl e, st) \<Rightarrow> Inl e
           | (Inr tmp, st) \<Rightarrow> Inr (w\<lparr>pools := st, live := (h, tmp) # live w\<rparr>)))"
| "step w (OpUse h f) =
     (case map_of (live w) h of
        None \<Rightarrow> Inl IllFormed
      | Some l \<Rightarrow>
          (case get l of
             None \<Rightarrow> Inl IllFormed
           | Some a \<Rightarrow>
               if a < length (heap w) then Inr (w\<lparr>heap := (heap w)[a := f (heap w ! a)]\<rparr>)
               else Inl IllFormed))"
| "step w (OpRelease h) =
     (case map_of (live w) h of
        None \<Rightarrow> Inl IllFormed
      | Some l \<Rightarrow>
          Inr (w\<lparr>pools := ptrType_dtor l (pools w), live := drop_handle h (live w)\<rparr>))"

fun exec :: "'v world \<Rightarrow> 'v op list \<Rightarrow> error + 'v world" where
  "exec w [] = Inr w"
| "exec w (c # cs) = (case step w c of Inl e \<Rightarrow> Inl e | Inr w' \<Rightarrow> exec w' cs)"

definition init :: "'v world" where
  "init = \<lparr>heap = [], pools = new_store, live = []\<rparr>"

text \<open>The addresses a list of pointers owns, the empty pointers left out.\<close>

fun owned :: "'a unique_ptr list \<Rightarrow> 'a list" where
  "owned [] = []"
| "owned (None # ts) = owned ts"
| "owned (Some a # ts) = a # owned ts"

definition idle_of :: "'v world \<Rightarrow> nat \<Rightarrow> nat list" where
  "idle_of w r = owned (m_pool (pools w r))"

definition leased :: "'v world \<Rightarrow> nat list" where
  "leased w = owned (map (\<lambda>(h, l). get l) (live w))"

text \<open>
  \<open>matched cs opened\<close>: \<open>cs\<close> consists of \<^verbatim>\<open>Acquire\<close> calls and ends of leases only,
  every lease it ends is one it acquired (or one of \<open>opened\<close>), and every lease it
  acquires (and each of \<open>opened\<close>) is ended in it.
\<close>

fun matched :: "'v op list \<Rightarrow> nat list \<Rightarrow> bool" where
  "matched [] opened = (opened = [])"
| "matched (OpAcquire r h # cs) opened = (h \<notin> set opened \<and> matched cs (h # opened))"
| "matched (OpRelease h # cs) opened = (h \<in> set opened \<and> matched cs (remove1 h opened))"
| "matched (c # cs) opened = False"

text \<open>
  The ownership invariant: no address is held twice, whether by two leases, twice in
  one pool, in two pools, or by a pool and a lease at once; and the addresses held
  are exactly those of the objects created so far.
\<close>

definition excl :: "'v world \<Rightarrow> bool" where
  "excl w \<longleftrightarrow>
     distinct (leased w) \<and>
     (\<forall>r. distinct (idle_of w r) \<and> set (idle_of w r) \<inter> set (leased w) = {}) \<and>
     (\<forall>r r'. r \<noteq> r' \<longrightarrow> set (idle_of w r) \<inter> set (idle_of w r') = {}) \<and>
     (\<forall>a. a < length (heap w) \<longleftrightarrow> a \<in> set (leased w) \<or> (\<exists>r. a \<in> set (idle_of w r)))"

text \<open>The resources currently leased from pool \<open>r\<close>.\<close>

definition lent :: "'v world \<Rightarrow> nat \<Rightarrow> nat list" where
  "lent w r = owned (map (\<lambda>(h, l). get l) (filter (\<lambda>(h, l). capture_this l = r) (live w)))"

fun is_add_to :: "nat \<Rightarrow> 'v op \<Rightarrow> bool" where
  "is_add_to r (OpAdd r' x) = (r' = r)"
| "is_add_to r c = False"

section \<open>The member functions\<close>

lemma Acquire_Inr:
  assumes "Acquire r st = (Inr tmp, st')"
  shows "\<exists>t rest. m_pool (st r) = t # rest \<and> tmp = \<lparr>get = t, capture_this = r\<rparr> \<and>
           st' = st(r := (st r)\<lparr>m_pool := rest\<rparr>)"
proof (cases "m_pool (st r)")
  case Nil
  with assms show ?thesis by (simp add: Acquire_def)
next
  case (Cons t rest)
  with assms show ?thesis by (auto simp: Acquire_def Let_def)
qed

lemma Acquire_Cons:
  "m_pool (st r) = t # rest \<Longrightarrow>
   Acquire r st = (Inr \<lparr>get = t, capture_this = r\<rparr>, st(r := (st r)\<lparr>m_pool := rest\<rparr>))"
  by (simp add: Acquire_def)

lemma Acquire_Nil: "m_pool (st r) = [] \<Longrightarrow> Acquire r st = (Inl PoolExhausted, st)"
  by (simp add: Acquire_def)

text \<open>
  C3. \<^verbatim>\<open>Acquire\<close> on a pool whose \<^verbatim>\<open>Size()\<close> is 0 signals \<open>PoolExhausted\<close> and the store
  at that point is the store of the call; on a pool that is not \<^verbatim>\<open>Empty()\<close> it returns
  a lease and never signals.
\<close>

theorem Acquire_exhausted:
  "(fst (Size this st) = 0 \<longrightarrow> Acquire this st = (Inl PoolExhausted, st)) \<and>
   (\<not> fst (Empty this st) \<longrightarrow> (\<exists>tmp st'. Acquire this st = (Inr tmp, st')))"
  by (simp add: Size_def Empty_def Acquire_def Let_def)

theorem Acquire_exhausted_witness:
  "fst (Size 0 (new_store :: nat store)) = 0 \<and>
   Acquire 0 (new_store :: nat store) = (Inl PoolExhausted, new_store) \<and>
   \<not> fst (Empty 0 (Add 0 (Some (7::nat)) new_store)) \<and>
   (\<exists>tmp st'. Acquire 0 (Add 0 (Some (7::nat)) new_store) = (Inr tmp, st'))"
proof -
  have e: "fst (Size 0 (new_store :: nat store)) = 0"
    by (simp add: Size_def new_store_def)
  have n: "\<not> fst (Empty 0 (Add 0 (Some (7::nat)) new_store))"
    by (simp add: Empty_def Add_def)
  from e n Acquire_exhausted [of 0 "new_store :: nat store"]
    Acquire_exhausted [of 0 "Add 0 (Some (7::nat)) new_store"]
  show ?thesis by blast
qed

text \<open>
  C6. \<^verbatim>\<open>Acquire\<close> takes what was inserted last: right after \<^verbatim>\<open>Add(t)\<close> it returns \<open>t\<close>
  and leaves the pool as it was before the \<^verbatim>\<open>Add\<close>; right after the end of a lease
  on \<open>a\<close> it returns \<open>a\<close> and leaves the pool as it was before the lease ended; and in
  general it returns the top of the stack and leaves the rest.
\<close>

theorem Acquire_lifo:
  "Acquire this (Add this t st) = (Inr \<lparr>get = t, capture_this = this\<rparr>, st) \<and>
   Acquire this (ptrType_dtor \<lparr>get = Some a, capture_this = this\<rparr> st) =
     (Inr \<lparr>get = Some a, capture_this = this\<rparr>, st) \<and>
   (m_pool (st this) \<noteq> [] \<longrightarrow>
      (\<exists>tmp st'. Acquire this st = (Inr tmp, st') \<and>
         get tmp = hd (m_pool (st this)) \<and> m_pool (st' this) = tl (m_pool (st this))))"
  by (simp add: Acquire_def Add_def ptrType_dtor_def deleter_def)

theorem Acquire_lifo_witness:
  "m_pool (Add 0 (Some (2::nat)) (Add 0 (Some 1) new_store) 0) \<noteq> [] \<and>
   (\<exists>tmp st'. Acquire 0 (Add 0 (Some (2::nat)) (Add 0 (Some 1) new_store)) = (Inr tmp, st') \<and>
      get tmp = Some 2 \<and> m_pool (st' 0) = [Some 1])"
proof -
  have n: "m_pool (Add 0 (Some (2::nat)) (Add 0 (Some 1) new_store) 0) \<noteq> []"
    by (simp add: Add_def)
  have h: "hd (m_pool (Add 0 (Some (2::nat)) (Add 0 (Some 1) new_store) 0)) = Some 2"
    "tl (m_pool (Add 0 (Some (2::nat)) (Add 0 (Some 1) new_store) 0)) = [Some 1]"
    by (simp_all add: Add_def new_store_def)
  from n Acquire_lifo [of 0 "Some 2" "Add 0 (Some (2::nat)) (Add 0 (Some 1) new_store)" 0]
  show ?thesis unfolding h by blast
qed

text \<open>
  C7. A pool that holds the one resource \<open>A\<close>: the first \<^verbatim>\<open>Acquire\<close> returns the lease on
  \<open>A\<close> and leaves \<^verbatim>\<open>Size()\<close> at 0; the second, with nothing released in between,
  signals \<open>PoolExhausted\<close>.
\<close>

theorem Acquire_twice:
  assumes "m_pool (st this) = [Some A]"
  shows "\<exists>st'. Acquire this st = (Inr \<lparr>get = Some A, capture_this = this\<rparr>, st') \<and>
           fst (Size this st') = 0 \<and> Acquire this st' = (Inl PoolExhausted, st')"
  using assms by (simp add: Acquire_def Size_def)

theorem Acquire_twice_witness:
  "m_pool (Add 0 (Some (5::nat)) new_store 0) = [Some 5] \<and>
   (\<exists>st'. Acquire 0 (Add 0 (Some (5::nat)) new_store) =
             (Inr \<lparr>get = Some 5, capture_this = 0\<rparr>, st') \<and>
      fst (Size 0 st') = 0 \<and> Acquire 0 st' = (Inl PoolExhausted, st'))"
proof -
  have s: "m_pool (Add 0 (Some (5::nat)) new_store 0) = [Some 5]"
    by (simp add: Add_def new_store_def)
  from s Acquire_twice [of "Add 0 (Some (5::nat)) new_store" 0 5] show ?thesis by blast
qed

text \<open>
  C8. \<^verbatim>\<open>Empty()\<close> is true exactly when the stack of idle entries is empty, \<^verbatim>\<open>Size()\<close> is
  the number of its entries, and both leave the store as it was.
\<close>

theorem observers_pure:
  "fst (Empty this st) = (m_pool (st this) = []) \<and>
   fst (Size this st) = length (m_pool (st this)) \<and>
   fst (Empty this st) = (fst (Size this st) = 0) \<and>
   snd (Empty this st) = st \<and> snd (Size this st) = st"
  by (simp add: Empty_def Size_def)

text \<open>
  C9. \<^verbatim>\<open>Add\<close> has no failure path: for every store and every pointer it puts the
  pointer on top of the stack of its pool, \<^verbatim>\<open>Size()\<close> grows by one, no other pool
  changes, and the client's call always goes through.
\<close>

theorem Add_succeeds:
  "m_pool (Add this t st this) = t # m_pool (st this) \<and>
   fst (Size this (Add this t st)) = Suc (fst (Size this st)) \<and>
   Add this t st = st(this := Add this t st this) \<and>
   (\<exists>w'. step w (OpAdd this x) = Inr w' \<and>
      fst (Size this (pools w')) = Suc (fst (Size this (pools w))))"
  by (cases x) (simp_all add: Add_def Size_def)

section \<open>Ownership\<close>

lemma drop_handle_mset:
  "map_of ls h = Some l \<Longrightarrow>
   mset (owned (map (\<lambda>(h, l). get l) ls)) =
   mset (owned [get l]) + mset (owned (map (\<lambda>(h, l). get l) (drop_handle h ls)))"
proof (induction ls)
  case Nil
  then show ?case by simp
next
  case (Cons kl ls)
  obtain k l' where kl: "kl = (k, l')" by (cases kl)
  show ?case
  proof (cases "k = h")
    case True
    with Cons.prems kl show ?thesis
      by (cases "get l") simp_all
  next
    case False
    with Cons kl show ?thesis
      by (cases "get l"; cases "get l'") simp_all
  qed
qed

lemma idle_of_Add:
  "idle_of (w\<lparr>pools := Add r t (pools w)\<rparr>) r' =
     (if r' = r then owned [t] @ idle_of w r else idle_of w r')"
  by (cases t) (simp_all add: idle_of_def Add_def)

lemma leased_pools_upd [simp]: "leased (w\<lparr>pools := st\<rparr>) = leased w"
  by (simp add: leased_def)

lemma leased_heap_upd [simp]: "leased (w\<lparr>heap := hp\<rparr>) = leased w"
  by (simp add: leased_def)

lemma idle_of_heap_upd [simp]: "idle_of (w\<lparr>heap := hp\<rparr>) r = idle_of w r"
  by (simp add: idle_of_def)

lemma idle_of_live_upd [simp]: "idle_of (w\<lparr>live := ls\<rparr>) r = idle_of w r"
  by (simp add: idle_of_def)

lemma excl_init: "excl init"
  by (simp add: excl_def init_def leased_def idle_of_def new_store_def)

lemma exclI:
  assumes "distinct (leased w)"
    and "\<And>r. distinct (idle_of w r)"
    and "\<And>r. set (idle_of w r) \<inter> set (leased w) = {}"
    and "\<And>r r'. r \<noteq> r' \<Longrightarrow> set (idle_of w r) \<inter> set (idle_of w r') = {}"
    and "\<And>a. a < length (heap w) \<longleftrightarrow> a \<in> set (leased w) \<or> (\<exists>r. a \<in> set (idle_of w r))"
  shows "excl w"
  unfolding excl_def using assms by simp

lemma exclD:
  assumes "excl w"
  shows "distinct (leased w)"
    and "distinct (idle_of w r)"
    and "set (idle_of w r) \<inter> set (leased w) = {}"
    and "r \<noteq> r' \<Longrightarrow> set (idle_of w r) \<inter> set (idle_of w r') = {}"
    and "a < length (heap w) \<longleftrightarrow> a \<in> set (leased w) \<or> (\<exists>r. a \<in> set (idle_of w r))"
  using assms unfolding excl_def by simp_all

lemma excl_add_null:
  assumes "excl w"
  shows "excl (w\<lparr>pools := Add r None (pools w)\<rparr>)"
proof -
  let ?w' = "w\<lparr>pools := Add r None (pools w)\<rparr>"
  have i: "idle_of ?w' = idle_of w"
    by (rule ext) (simp add: idle_of_Add)
  have "leased ?w' = leased w" "heap ?w' = heap w"
    by simp_all
  with i assms show ?thesis
    by (simp add: excl_def)
qed

lemma excl_add_new:
  assumes "excl w"
  shows "excl (w\<lparr>heap := heap w @ [v], pools := Add r (Some (length (heap w))) (pools w)\<rparr>)"
    (is "excl ?w'")
proof (rule exclI)
  let ?n = "length (heap w)"
  have fresh: "?n \<notin> set (leased w)" "?n \<notin> set (idle_of w r')" for r'
    using exclD(5) [OF assms, of ?n] by auto
  have i: "idle_of ?w' r' = (if r' = r then ?n # idle_of w r else idle_of w r')" for r'
    by (simp add: idle_of_def Add_def)
  have l: "leased ?w' = leased w" "length (heap ?w') = Suc ?n"
    by (simp_all add: leased_def)
  show "distinct (leased ?w')"
    using exclD(1) [OF assms] l by simp
  show "distinct (idle_of ?w' r')" for r'
    using exclD(2) [OF assms] fresh by (simp add: i)
  show "set (idle_of ?w' r') \<inter> set (leased ?w') = {}" for r'
    using exclD(3) [OF assms] fresh by (simp add: i l)
  show "set (idle_of ?w' r1) \<inter> set (idle_of ?w' r2) = {}" if "r1 \<noteq> r2" for r1 r2
    using exclD(4) [OF assms that] fresh that by (auto simp: i)
  show "a < length (heap ?w') \<longleftrightarrow> a \<in> set (leased ?w') \<or> (\<exists>r. a \<in> set (idle_of ?w' r))" for a
  proof -
    have "(\<exists>r'. a \<in> set (idle_of ?w' r')) \<longleftrightarrow> a = ?n \<or> (\<exists>r'. a \<in> set (idle_of w r'))"
      unfolding i by (auto split: if_splits)
    with exclD(5) [OF assms, of a] show ?thesis
      unfolding l by (auto simp: less_Suc_eq)
  qed
qed

lemma excl_move_out:
  assumes "excl w"
    and i: "idle_of w r = xs @ ys" "\<And>r'. idle_of w' r' = (if r' = r then ys else idle_of w r')"
    and l: "leased w' = xs @ leased w"
    and h: "length (heap w') = length (heap w)"
  shows "excl w'"
proof (rule exclI)
  have d: "distinct (xs @ ys)" "set (xs @ ys) \<inter> set (leased w) = {}"
    using exclD(2,3) [OF assms(1), of r] i(1) by simp_all
  show "distinct (leased w')"
    using exclD(1) [OF assms(1)] d by (auto simp: l)
  show "distinct (idle_of w' r')" for r'
    using exclD(2) [OF assms(1), of r'] d by (simp add: i(2))
  show "set (idle_of w' r') \<inter> set (leased w') = {}" for r'
  proof (cases "r' = r")
    case True
    with d show ?thesis by (auto simp: i(2) l)
  next
    case False
    with exclD(3) [OF assms(1), of r'] exclD(4) [OF assms(1), of r' r] i(1)
    show ?thesis by (auto simp: i(2) l)
  qed
  show "set (idle_of w' r1) \<inter> set (idle_of w' r2) = {}" if "r1 \<noteq> r2" for r1 r2
    using exclD(4) [OF assms(1) that] exclD(4) [OF assms(1), of r r2] exclD(4) [OF assms(1), of r1 r]
      that i(1)
    by (auto simp: i(2))
  show "a < length (heap w') \<longleftrightarrow> a \<in> set (leased w') \<or> (\<exists>r. a \<in> set (idle_of w' r))" for a
  proof -
    have "a \<in> set (leased w') \<or> (\<exists>r'. a \<in> set (idle_of w' r')) \<longleftrightarrow>
          a \<in> set (leased w) \<or> (\<exists>r'. a \<in> set (idle_of w r'))"
    proof -
      have "(\<exists>r'. a \<in> set (idle_of w r')) \<longleftrightarrow>
            a \<in> set xs \<or> a \<in> set ys \<or> (\<exists>r'. r' \<noteq> r \<and> a \<in> set (idle_of w r'))"
        using i(1) by (metis Un_iff set_append)
      moreover have "(\<exists>r'. a \<in> set (idle_of w' r')) \<longleftrightarrow>
            a \<in> set ys \<or> (\<exists>r'. r' \<noteq> r \<and> a \<in> set (idle_of w r'))"
        unfolding i(2) by (auto split: if_splits)
      ultimately show ?thesis by (auto simp: l)
    qed
    with exclD(5) [OF assms(1), of a] h show ?thesis by simp
  qed
qed

lemma excl_move_in:
  assumes "excl w"
    and l: "mset (leased w) = mset xs + mset (leased w')"
    and i: "\<And>r'. idle_of w' r' = (if r' = r then xs @ idle_of w r else idle_of w r')"
    and h: "length (heap w') = length (heap w)"
  shows "excl w'"
proof (rule exclI)
  have m: "mset (leased w) = mset (xs @ leased w')"
    using l by simp
  have d: "distinct (xs @ leased w')"
    using exclD(1) [OF assms(1)] mset_eq_imp_distinct_iff [OF m] by simp
  have s: "set (leased w) = set xs \<union> set (leased w')"
    using mset_eq_setD [OF m] by simp
  show "distinct (leased w')"
    using d by simp
  show "distinct (idle_of w' r')" for r'
    using exclD(2) [OF assms(1), of r'] exclD(3) [OF assms(1), of r] d s
    by (auto simp: i)
  show "set (idle_of w' r') \<inter> set (leased w') = {}" for r'
    using exclD(3) [OF assms(1), of r'] d s by (auto simp: i)
  show "set (idle_of w' r1) \<inter> set (idle_of w' r2) = {}" if "r1 \<noteq> r2" for r1 r2
    using exclD(4) [OF assms(1) that] exclD(3) [OF assms(1), of r1] exclD(3) [OF assms(1), of r2]
      that s
    by (auto simp: i)
  show "a < length (heap w') \<longleftrightarrow> a \<in> set (leased w') \<or> (\<exists>r. a \<in> set (idle_of w' r))" for a
  proof -
    have "(\<exists>r'. a \<in> set (idle_of w' r')) \<longleftrightarrow> a \<in> set xs \<or> (\<exists>r'. a \<in> set (idle_of w r'))"
      unfolding i by (auto split: if_splits)
    with exclD(5) [OF assms(1), of a] h s show ?thesis by auto
  qed
qed

lemma excl_acquire:
  assumes "excl w" and "Acquire r (pools w) = (Inr tmp, st)"
  shows "excl (w\<lparr>pools := st, live := (h, tmp) # live w\<rparr>)"
proof -
  from Acquire_Inr [OF assms(2)] obtain t rest where
    t: "m_pool (pools w r) = t # rest" "tmp = \<lparr>get = t, capture_this = r\<rparr>"
      "st = (pools w)(r := (pools w r)\<lparr>m_pool := rest\<rparr>)"
    by blast
  show ?thesis
  proof (rule excl_move_out [OF assms(1), where r = r and xs = "owned [t]" and ys = "owned rest"])
    show "idle_of w r = owned [t] @ owned rest"
      using t(1) by (cases t) (simp_all add: idle_of_def)
    show "idle_of (w\<lparr>pools := st, live := (h, tmp) # live w\<rparr>) r' =
          (if r' = r then owned rest else idle_of w r')" for r'
      by (simp add: idle_of_def t(3))
    show "leased (w\<lparr>pools := st, live := (h, tmp) # live w\<rparr>) = owned [t] @ leased w"
      by (cases t) (simp_all add: leased_def t(2))
  qed simp
qed

lemma excl_release:
  assumes "excl w" and "map_of (live w) h = Some l"
  shows "excl (w\<lparr>pools := ptrType_dtor l (pools w), live := drop_handle h (live w)\<rparr>)"
proof (rule excl_move_in [OF assms(1), where r = "capture_this l" and xs = "owned [get l]"])
  show "mset (leased w) = mset (owned [get l]) +
        mset (leased (w\<lparr>pools := ptrType_dtor l (pools w), live := drop_handle h (live w)\<rparr>))"
    using drop_handle_mset [OF assms(2)] by (simp add: leased_def)
  show "idle_of (w\<lparr>pools := ptrType_dtor l (pools w), live := drop_handle h (live w)\<rparr>) r' =
        (if r' = capture_this l then owned [get l] @ idle_of w (capture_this l) else idle_of w r')"
    for r'
    by (cases "get l") (simp_all add: idle_of_def ptrType_dtor_def deleter_def Add_def)
qed simp

lemma excl_use: "excl w \<Longrightarrow> excl (w\<lparr>heap := (heap w)[a := x]\<rparr>)"
  by (simp add: excl_def)

lemma excl_step:
  assumes "excl w" and "step w c = Inr w'"
  shows "excl w'"
proof (cases c)
  case (OpAdd r x)
  with assms show ?thesis
    by (cases x) (auto intro: excl_add_null excl_add_new)
next
  case (OpAcquire r h)
  with assms show ?thesis
    by (auto split: option.splits prod.splits sum.splits intro: excl_acquire)
next
  case (OpUse h f)
  with assms show ?thesis
    by (auto split: option.splits if_splits intro: excl_use)
next
  case (OpRelease h)
  with assms show ?thesis
    by (auto split: option.splits intro: excl_release)
qed

lemma excl_exec: "excl w \<Longrightarrow> exec w cs = Inr w' \<Longrightarrow> excl w'"
proof (induction cs arbitrary: w)
  case Nil
  then show ?case by simp
next
  case (Cons c cs)
  then show ?case
    by (cases "step w c") (auto intro: excl_step)
qed

lemma exec_append:
  "exec w (cs @ ds) = (case exec w cs of Inl e \<Rightarrow> Inl e | Inr w' \<Rightarrow> exec w' ds)"
  by (induction cs arbitrary: w) (auto split: sum.splits)

lemma owned_mem: "a \<in> set (owned ts) \<longleftrightarrow> Some a \<in> set ts"
  by (induction ts rule: owned.induct) auto

lemma fst_drop_handle: "map fst (drop_handle h ls) = remove1 h (map fst ls)"
  by (induction ls rule: drop_handle.induct) auto

lemma map_of_drop_handle_other: "h' \<noteq> h \<Longrightarrow> map_of (drop_handle h ls) h' = map_of ls h'"
  by (induction ls rule: drop_handle.induct) auto

lemma map_of_drop_handle_same:
  "distinct (map fst ls) \<Longrightarrow> map_of (drop_handle h ls) h = None"
  by (induction ls rule: drop_handle.induct) (auto simp: map_of_eq_None_iff)

lemma handles_step:
  assumes "distinct (map fst (live w))" and "step w c = Inr w'"
  shows "distinct (map fst (live w'))"
proof (cases c)
  case (OpAdd r x)
  with assms show ?thesis by (cases x) auto
next
  case (OpAcquire r h)
  with assms show ?thesis
    by (auto split: option.splits prod.splits sum.splits simp: map_of_eq_None_iff)
next
  case (OpUse h f)
  with assms show ?thesis by (auto split: option.splits if_splits)
next
  case (OpRelease h)
  with assms show ?thesis by (auto split: option.splits simp: fst_drop_handle)
qed

lemma handles_exec:
  "distinct (map fst (live w)) \<Longrightarrow> exec w cs = Inr w' \<Longrightarrow> distinct (map fst (live w'))"
proof (induction cs arbitrary: w)
  case Nil
  then show ?case by simp
next
  case (Cons c cs)
  then show ?case
    by (cases "step w c") (auto intro: handles_step)
qed

lemma lease_kept_step:
  assumes "map_of (live w) h = Some l" and "step w c = Inr w'" and "c \<noteq> OpRelease h"
  shows "map_of (live w') h = Some l"
proof (cases c)
  case (OpAdd r x)
  with assms show ?thesis by (cases x) auto
next
  case (OpAcquire r h')
  with assms show ?thesis
    by (auto split: option.splits prod.splits sum.splits)
next
  case (OpUse h' f)
  with assms show ?thesis by (auto split: option.splits if_splits)
next
  case (OpRelease h')
  with assms show ?thesis by (auto split: option.splits simp: map_of_drop_handle_other)
qed

lemma exec_Cons_Inr:
  "exec w (c # cs) = Inr w' \<Longrightarrow> \<exists>w1. step w c = Inr w1 \<and> exec w1 cs = Inr w'"
  by (cases "step w c") simp_all

lemma lease_kept_exec:
  "map_of (live w) h = Some l \<Longrightarrow> exec w cs = Inr w' \<Longrightarrow> OpRelease h \<notin> set cs \<Longrightarrow>
   map_of (live w') h = Some l"
proof (induction cs arbitrary: w)
  case Nil
  then show ?case by simp
next
  case (Cons c cs)
  from exec_Cons_Inr [OF Cons.prems(2)] obtain w1 where
    w1: "step w c = Inr w1" "exec w1 cs = Inr w'" by blast
  from Cons.prems(3) have n: "c \<noteq> OpRelease h" "OpRelease h \<notin> set cs" by auto
  from lease_kept_step [OF Cons.prems(1) w1(1) n(1)] have "map_of (live w1) h = Some l" .
  from Cons.IH [OF this w1(2) n(2)] show ?case .
qed

text \<open>
  C4. In every state reached from the start (no object, every pool empty, no lease)
  by any sequence of \<^verbatim>\<open>Add\<close>, \<^verbatim>\<open>Acquire\<close>, uses and ends of leases: no two live leases
  hold the same resource; no resource is twice in a pool, nor in a pool and in a live
  lease at once, nor in two pools; and every resource created so far is idle in some
  pool or held by a live lease.
\<close>

theorem exclusive_ownership:
  assumes "exec init cs = Inr w"
  shows "distinct (leased w) \<and>
     (\<forall>r. distinct (idle_of w r) \<and> set (idle_of w r) \<inter> set (leased w) = {}) \<and>
     (\<forall>r r'. r \<noteq> r' \<longrightarrow> set (idle_of w r) \<inter> set (idle_of w r') = {}) \<and>
     (\<forall>a. a < length (heap w) \<longleftrightarrow> a \<in> set (leased w) \<or> (\<exists>r. a \<in> set (idle_of w r)))"
  using excl_exec [OF excl_init assms] unfolding excl_def .

theorem exclusive_ownership_witness:
  "\<exists>w. exec (init :: nat world) [OpAdd 0 (Some 10), OpAdd 0 (Some 20), OpAcquire 0 1] = Inr w \<and>
     leased w = [1] \<and> idle_of w 0 = [0] \<and> distinct (leased w)"
proof -
  let ?w = "\<lparr>heap = [10, 20 :: nat], pools = new_store(0 := \<lparr>m_pool = [Some 0]\<rparr>),
             live = [(1, \<lparr>get = Some 1, capture_this = 0\<rparr>)]\<rparr>"
  have e: "exec init [OpAdd 0 (Some 10), OpAdd 0 (Some 20), OpAcquire 0 1] = Inr ?w"
    by (simp add: init_def new_store_def Add_def Acquire_def)
  have l: "leased ?w = [1]" "idle_of ?w 0 = [0]"
    by (simp_all add: leased_def idle_of_def)
  from exclusive_ownership [OF e, THEN conjunct1] have d: "distinct (leased ?w)" .
  from e l d show ?thesis by (intro exI [of _ ?w] conjI)
qed

section \<open>Leases\<close>

lemma lease_is_leased:
  "map_of ls h = Some l \<Longrightarrow> get l = Some a \<Longrightarrow> a \<in> set (owned (map (\<lambda>(h, l). get l) ls))"
proof (induction ls)
  case Nil
  then show ?case by simp
next
  case (Cons kl ls)
  obtain k l' where kl: "kl = (k, l')" by (cases kl)
  with Cons show ?case
    by (cases "get l'") (auto split: if_splits)
qed

lemma step_acquire_Inr:
  assumes "step w (OpAcquire r h) = Inr w1"
  shows "\<exists>t rest. map_of (live w) h = None \<and> m_pool (pools w r) = t # rest \<and>
           w1 = w\<lparr>pools := (pools w)(r := (pools w r)\<lparr>m_pool := rest\<rparr>),
                  live := (h, \<lparr>get = t, capture_this = r\<rparr>) # live w\<rparr>"
proof (cases "map_of (live w) h")
  case (Some l)
  with assms show ?thesis by simp
next
  case None
  show ?thesis
  proof (cases "m_pool (pools w r)")
    case Nil
    with assms None show ?thesis by (simp add: Acquire_Nil)
  next
    case (Cons t rest)
    with assms None show ?thesis by (simp add: Acquire_Cons)
  qed
qed

text \<open>
  C2, as the code has it. A lease produced by \<^verbatim>\<open>Acquire\<close> on pool \<open>r\<close> that holds a
  resource \<open>a\<close> (its pointer is not null): whatever the client does while the lease is
  live, the end of the lease is one call of \<^verbatim>\<open>Add\<close> on that same pool \<open>r\<close> with \<open>a\<close>,
  after which \<open>a\<close> occurs exactly once in the idle stack of \<open>r\<close>; the lease is then out
  of scope and cannot end a second time.
\<close>

theorem lease_returns_once:
  assumes reach: "exec init cs = Inr w0"
    and acq: "step w0 (OpAcquire r h) = Inr w1"
    and holds: "map_of (live w1) h = Some l" "get l = Some a"
    and later: "exec w1 cs' = Inr w" "OpRelease h \<notin> set cs'"
  shows "capture_this l = r \<and>
         (\<exists>w'. step w (OpRelease h) = Inr w' \<and>
            pools w' = Add r (Some a) (pools w) \<and>
            count_list (m_pool (pools w' r)) (Some a) = 1 \<and>
            map_of (live w') h = None \<and>
            step w' (OpRelease h) = Inl IllFormed)"
proof -
  from step_acquire_Inr [OF acq] obtain t rest where
    w1: "w1 = w0\<lparr>pools := (pools w0)(r := (pools w0 r)\<lparr>m_pool := rest\<rparr>),
                  live := (h, \<lparr>get = t, capture_this = r\<rparr>) # live w0\<rparr>"
    by blast
  from holds(1) have l: "l = \<lparr>get = t, capture_this = r\<rparr>"
    by (simp add: w1)
  then have r: "capture_this l = r" by simp
  have e0: "excl w0" "distinct (map fst (live w0))"
    using excl_exec [OF excl_init reach] handles_exec [OF _ reach] by (simp_all add: init_def)
  have e: "excl w" "distinct (map fst (live w))"
    using excl_exec [OF excl_step [OF e0(1) acq] later(1)]
      handles_exec [OF handles_step [OF e0(2) acq] later(1)] .
  have k: "map_of (live w) h = Some l"
    by (rule lease_kept_exec [OF holds(1) later])
  let ?w' = "w\<lparr>pools := ptrType_dtor l (pools w), live := drop_handle h (live w)\<rparr>"
  have s: "step w (OpRelease h) = Inr ?w'"
    by (simp add: k)
  have p: "pools ?w' = Add r (Some a) (pools w)"
    by (simp add: ptrType_dtor_def deleter_def holds(2) r)
  have "a \<in> set (leased w)"
    using lease_is_leased [OF k holds(2)] by (simp add: leased_def)
  with exclD(3) [OF e(1), of r] have "a \<notin> set (idle_of w r)"
    by blast
  then have "Some a \<notin> set (m_pool (pools w r))"
    by (simp add: idle_of_def owned_mem)
  then have c: "count_list (m_pool (pools ?w' r)) (Some a) = 1"
    by (simp add: p Add_def)
  have g: "map_of (live ?w') h = None"
    using map_of_drop_handle_same [OF e(2)] by simp
  then have "step ?w' (OpRelease h) = Inl IllFormed"
    by simp
  with r s p c g show ?thesis
    by blast
qed

lemma pool_upd [simp]: "(p :: 'a SharedPool)\<lparr>m_pool := ts\<rparr> = \<lparr>m_pool = ts\<rparr>"
  by (cases p) simp

lemma pool_eta [simp]: "\<lparr>m_pool = m_pool (p :: 'a SharedPool)\<rparr> = p"
  by (cases p) simp

lemma new_store_upd [simp]: "new_store(r := \<lparr>m_pool = []\<rparr>) = new_store"
  by (rule ext) (simp add: new_store_def)

lemma m_pool_new_store [simp]: "m_pool (new_store r) = []"
  by (simp add: new_store_def)

theorem lease_returns_once_witness:
  "\<exists>w0 w1 l w. exec (init :: nat world) [OpAdd 0 (Some 10)] = Inr w0 \<and>
     step w0 (OpAcquire 0 1) = Inr w1 \<and> map_of (live w1) 1 = Some l \<and> get l = Some 0 \<and>
     exec w1 [OpUse 1 Suc] = Inr w \<and> OpRelease 1 \<notin> set [OpUse 1 Suc :: nat op] \<and>
     capture_this l = 0 \<and>
     (\<exists>w'. step w (OpRelease 1) = Inr w' \<and> pools w' = Add 0 (Some 0) (pools w) \<and>
        count_list (m_pool (pools w' 0)) (Some 0) = 1)"
proof -
  let ?l = "\<lparr>get = Some (0::nat), capture_this = 0\<rparr>"
  let ?wa = "\<lparr>heap = [10::nat], pools = new_store(0 := \<lparr>m_pool = [Some 0]\<rparr>), live = []\<rparr>"
  let ?wb = "\<lparr>heap = [10::nat], pools = new_store, live = [(1, ?l)]\<rparr>"
  let ?wc = "\<lparr>heap = [11::nat], pools = new_store, live = [(1, ?l)]\<rparr>"
  have a: "exec init [OpAdd 0 (Some 10)] = Inr ?wa"
    by (simp add: init_def Add_def)
  have b: "step ?wa (OpAcquire 0 1) = Inr ?wb"
    by (simp add: Acquire_def)
  have c: "map_of (live ?wb) 1 = Some ?l" "get ?l = Some 0"
    by simp_all
  have d: "exec ?wb [OpUse 1 Suc] = Inr ?wc"
    by simp
  have e: "OpRelease 1 \<notin> set [OpUse 1 Suc :: nat op]"
    by simp
  from lease_returns_once [OF a b c d e] a b c d e show ?thesis
    by blast
qed

text \<open>
  C2 as stated fails for a lease on nothing: after \<^verbatim>\<open>Add(nullptr)\<close>, \<^verbatim>\<open>Acquire\<close>
  produces a lease whose pointer is null, and the destructor of \<^verbatim>\<open>std::unique_ptr\<close>
  does not call the deleter on a null pointer: no re-insertion takes place, and the
  pool is left empty.
\<close>

theorem lease_returns_counterexample:
  "Acquire 0 (Add 0 None (new_store :: nat store)) =
     (Inr \<lparr>get = None, capture_this = 0\<rparr>, new_store) \<and>
   ptrType_dtor \<lparr>get = None, capture_this = 0\<rparr> (new_store :: nat store) = new_store \<and>
   fst (Size 0 (new_store :: nat store)) = 0 \<and>
   exec (init :: nat world) [OpAdd 0 None, OpAcquire 0 1, OpRelease 1] = Inr init"
  by (simp add: Acquire_def Add_def ptrType_dtor_def Size_def init_def)

text \<open>
  C10. The end of a lease never writes to a resource object: it leaves the heap as it
  is. So when a borrower has changed the object behind its lease by some \<open>f\<close> and the
  lease ends, the next \<^verbatim>\<open>Acquire\<close> on that pool hands out the same object, in the state
  the borrower left it in.
\<close>

theorem release_keeps_state:
  assumes "map_of (live w) h = Some l" and "get l = Some a" and "a < length (heap w)"
    and "map_of (drop_handle h (live w)) h' = None"
  shows "(\<forall>w0 k w0'. step w0 (OpRelease k) = Inr w0' \<longrightarrow> heap w0' = (heap w0 :: 'v list)) \<and>
         (\<exists>w1 w2 w3. step w (OpUse h f) = Inr w1 \<and> heap w1 ! a = f (heap w ! a) \<and>
            step w1 (OpRelease h) = Inr w2 \<and> heap w2 = heap w1 \<and>
            step w2 (OpAcquire (capture_this l) h') = Inr w3 \<and>
            map_of (live w3) h' = Some l \<and> heap w3 ! a = f (heap w ! a))"
proof
  show "\<forall>w0 k w0'. step w0 (OpRelease k) = Inr w0' \<longrightarrow> heap w0' = (heap w0 :: 'v list)"
    by (auto split: option.splits)
next
  let ?wa = "w\<lparr>heap := (heap w)[a := f (heap w ! a)]\<rparr>"
  let ?wb = "?wa\<lparr>pools := ptrType_dtor l (pools ?wa), live := drop_handle h (live ?wa)\<rparr>"
  let ?wc = "?wb\<lparr>pools := pools w, live := (h', l) # live ?wb\<rparr>"
  have 1: "step w (OpUse h f) = Inr ?wa"
    using assms by simp
  have 2: "step ?wa (OpRelease h) = Inr ?wb"
    using assms by simp
  have "Acquire (capture_this l) (pools ?wb) = (Inr l, pools w)"
    using assms(2) by (cases l) (simp add: Acquire_def ptrType_dtor_def deleter_def Add_def)
  then have 3: "step ?wb (OpAcquire (capture_this l) h') = Inr ?wc"
    using assms(4) by simp
  have 4: "heap ?wa ! a = f (heap w ! a)" "heap ?wb = heap ?wa"
    "map_of (live ?wc) h' = Some l" "heap ?wc ! a = f (heap w ! a)"
    using assms(3) by simp_all
  from 1 2 3 4 show "\<exists>w1 w2 w3. step w (OpUse h f) = Inr w1 \<and> heap w1 ! a = f (heap w ! a) \<and>
            step w1 (OpRelease h) = Inr w2 \<and> heap w2 = heap w1 \<and>
            step w2 (OpAcquire (capture_this l) h') = Inr w3 \<and>
            map_of (live w3) h' = Some l \<and> heap w3 ! a = f (heap w ! a)"
    by blast
qed

theorem release_keeps_state_witness:
  "\<exists>w l. map_of (live w) 1 = Some l \<and> get l = Some 0 \<and> 0 < length (heap w) \<and>
     map_of (drop_handle 1 (live w)) 2 = None \<and>
     (\<exists>w1 w2 w3. step w (OpUse 1 Suc) = Inr w1 \<and> heap w1 ! 0 = Suc (heap w ! 0) \<and>
        step w1 (OpRelease 1) = Inr w2 \<and> heap w2 = heap w1 \<and>
        step w2 (OpAcquire (capture_this l) 2) = Inr w3 \<and>
        map_of (live w3) 2 = Some l \<and> heap w3 ! 0 = Suc (heap w ! 0))"
proof -
  let ?l = "\<lparr>get = Some (0::nat), capture_this = 0\<rparr>"
  let ?wa = "\<lparr>heap = [10::nat], pools = new_store, live = [(1, ?l)]\<rparr>"
  have a: "map_of (live ?wa) 1 = Some ?l" "get ?l = Some 0" "0 < length (heap ?wa)"
    "map_of (drop_handle 1 (live ?wa)) 2 = None"
    by simp_all
  from release_keeps_state [OF a, of Suc, THEN conjunct2] a show ?thesis
    by blast
qed

section \<open>Conservation\<close>

lemma lent_drop_handle:
  "map_of ls h = Some l \<Longrightarrow>
   mset (owned (map (\<lambda>(h, l). get l) (filter (\<lambda>(h, l). capture_this l = r) ls))) =
   (if capture_this l = r then mset (owned [get l]) else {#}) +
   mset (owned (map (\<lambda>(h, l). get l)
     (filter (\<lambda>(h, l). capture_this l = r) (drop_handle h ls))))"
proof (induction ls)
  case Nil
  then show ?case by simp
next
  case (Cons kl ls)
  obtain k l' where kl: "kl = (k, l')" by (cases kl)
  show ?case
  proof (cases "k = h")
    case True
    with Cons.prems kl show ?thesis
      by (cases "get l") simp_all
  next
    case False
    with Cons kl show ?thesis
      by (cases "get l"; cases "get l'") simp_all
  qed
qed

lemma lent_pools_upd [simp]: "lent (w\<lparr>pools := st\<rparr>) r = lent w r"
  by (simp add: lent_def)

lemma lent_heap_upd [simp]: "lent (w\<lparr>heap := hp\<rparr>) r = lent w r"
  by (simp add: lent_def)

lemma conserve_step:
  assumes "step w c = Inr w'" and "\<not> is_add_to r c"
  shows "mset (idle_of w' r) + mset (lent w' r) = mset (idle_of w r) + mset (lent w r)"
proof (cases c)
  case (OpAdd r' x)
  with assms have "r' \<noteq> r" by simp
  with assms OpAdd show ?thesis
    by (cases x) (auto simp: idle_of_def Add_def)
next
  case (OpAcquire r' h)
  from step_acquire_Inr [OF assms(1) [unfolded OpAcquire]] obtain t rest where
    t: "m_pool (pools w r') = t # rest"
      "w' = w\<lparr>pools := (pools w)(r' := (pools w r')\<lparr>m_pool := rest\<rparr>),
                 live := (h, \<lparr>get = t, capture_this = r'\<rparr>) # live w\<rparr>"
    by blast
  show ?thesis
  proof (cases "r' = r")
    case True
    with t show ?thesis
      by (cases t) (simp_all add: idle_of_def lent_def)
  next
    case False
    with t show ?thesis
      by (simp add: idle_of_def lent_def)
  qed
next
  case (OpUse h f)
  with assms show ?thesis
    by (auto split: option.splits if_splits)
next
  case (OpRelease h)
  with assms obtain l where
    l: "map_of (live w) h = Some l"
      "w' = w\<lparr>pools := ptrType_dtor l (pools w), live := drop_handle h (live w)\<rparr>"
    by (auto split: option.splits)
  have i: "mset (idle_of w' r) =
           (if capture_this l = r then mset (owned [get l]) else {#}) + mset (idle_of w r)"
    by (cases "get l") (simp_all add: l(2) idle_of_def ptrType_dtor_def deleter_def Add_def)
  have "mset (lent w r) =
        (if capture_this l = r then mset (owned [get l]) else {#}) + mset (lent w' r)"
    using lent_drop_handle [OF l(1), of r] by (simp add: lent_def l(2))
  with i show ?thesis by simp
qed

lemma nullfree_step:
  assumes "None \<notin> set (m_pool (pools w r))" and "step w c = Inr w'" and "\<not> is_add_to r c"
  shows "None \<notin> set (m_pool (pools w' r))"
proof (cases c)
  case (OpAdd r' x)
  with assms have "r' \<noteq> r" by simp
  with assms OpAdd show ?thesis
    by (cases x) (auto simp: Add_def)
next
  case (OpAcquire r' h)
  from step_acquire_Inr [OF assms(2) [unfolded OpAcquire]] obtain t rest where
    t: "m_pool (pools w r') = t # rest"
      "w' = w\<lparr>pools := (pools w)(r' := (pools w r')\<lparr>m_pool := rest\<rparr>),
                 live := (h, \<lparr>get = t, capture_this = r'\<rparr>) # live w\<rparr>"
    by blast
  with assms(1) show ?thesis
    by (cases "r' = r") auto
next
  case (OpUse h f)
  with assms show ?thesis
    by (auto split: option.splits if_splits)
next
  case (OpRelease h)
  with assms obtain l where
    l: "w' = w\<lparr>pools := ptrType_dtor l (pools w), live := drop_handle h (live w)\<rparr>"
    by (auto split: option.splits)
  with assms(1) show ?thesis
    by (cases "get l") (auto simp: ptrType_dtor_def deleter_def Add_def)
qed

lemma conserve_exec:
  "exec w cs = Inr w' \<Longrightarrow> \<forall>c\<in>set cs. \<not> is_add_to r c \<Longrightarrow>
   mset (idle_of w' r) + mset (lent w' r) = mset (idle_of w r) + mset (lent w r)"
proof (induction cs arbitrary: w)
  case Nil
  then show ?case by simp
next
  case (Cons c cs)
  from exec_Cons_Inr [OF Cons.prems(1)] obtain w1 where
    w1: "step w c = Inr w1" "exec w1 cs = Inr w'" by blast
  from Cons.prems(2) have n: "\<not> is_add_to r c" "\<forall>c\<in>set cs. \<not> is_add_to r c" by simp_all
  from Cons.IH [OF w1(2) n(2)] conserve_step [OF w1(1) n(1)] show ?case by simp
qed

lemma nullfree_exec:
  "None \<notin> set (m_pool (pools w r)) \<Longrightarrow> exec w cs = Inr w' \<Longrightarrow>
   \<forall>c\<in>set cs. \<not> is_add_to r c \<Longrightarrow> None \<notin> set (m_pool (pools w' r))"
proof (induction cs arbitrary: w)
  case Nil
  then show ?case by simp
next
  case (Cons c cs)
  from exec_Cons_Inr [OF Cons.prems(2)] obtain w1 where
    w1: "step w c = Inr w1" "exec w1 cs = Inr w'" by blast
  from Cons.prems(3) have n: "\<not> is_add_to r c" "\<forall>c\<in>set cs. \<not> is_add_to r c" by simp_all
  from Cons.IH [OF nullfree_step [OF Cons.prems(1) w1(1) n(1)] w1(2) n(2)] show ?case .
qed

lemma matched_no_add: "matched cs opened \<Longrightarrow> \<forall>c\<in>set cs. \<not> is_add_to r c"
  by (induction cs opened rule: matched.induct) auto

lemma map_of_append_fst:
  "h \<in> set (map fst new) \<Longrightarrow> \<exists>l. map_of (new @ base) h = Some l \<and> map_of new h = Some l"
  by (induction new) auto

lemma drop_handle_append:
  "h \<in> set (map fst new) \<Longrightarrow> drop_handle h (new @ base) = drop_handle h new @ base"
  by (induction new) force+

lemma matched_live:
  "matched cs (map fst new) \<Longrightarrow> live w = new @ base \<Longrightarrow> exec w cs = Inr w' \<Longrightarrow>
   live w' = base"
proof (induction cs arbitrary: w new)
  case Nil
  then show ?case by simp
next
  case (Cons c cs)
  from exec_Cons_Inr [OF Cons.prems(3)] obtain w1 where
    w1: "step w c = Inr w1" "exec w1 cs = Inr w'" by blast
  show ?case
  proof (cases c)
    case (OpAdd r x)
    with Cons.prems(1) show ?thesis by simp
  next
    case (OpAcquire r h)
    from step_acquire_Inr [OF w1(1) [unfolded OpAcquire]] obtain t where
      "live w1 = (h, \<lparr>get = t, capture_this = r\<rparr>) # live w"
      by auto
    then have l: "live w1 = ((h, \<lparr>get = t, capture_this = r\<rparr>) # new) @ base"
      by (simp add: Cons.prems(2))
    from Cons.prems(1) OpAcquire
    have "matched cs (map fst ((h, \<lparr>get = t, capture_this = r\<rparr>) # new))"
      by simp
    from Cons.IH [OF this l w1(2)] show ?thesis .
  next
    case (OpUse h f)
    with Cons.prems(1) show ?thesis by simp
  next
    case (OpRelease h)
    with Cons.prems(1) have h: "h \<in> set (map fst new)" "matched cs (remove1 h (map fst new))"
      by simp_all
    from map_of_append_fst [OF h(1), of base] obtain l where
      "map_of (live w) h = Some l"
      by (auto simp: Cons.prems(2))
    with w1(1) OpRelease have "live w1 = drop_handle h (live w)"
      by auto
    then have l: "live w1 = drop_handle h new @ base"
      by (simp add: Cons.prems(2) drop_handle_append [OF h(1)])
    from h(2) have "matched cs (map fst (drop_handle h new))"
      by (simp add: fst_drop_handle)
    from Cons.IH [OF this l w1(2)] show ?thesis .
  qed
qed

lemma owned_nullfree: "None \<notin> set ts \<Longrightarrow> map Some (owned ts) = ts"
  by (induction ts rule: owned.induct) auto

lemma adds_exec:
  "\<exists>w1. exec w (map (\<lambda>v. OpAdd r (Some v)) vs) = Inr w1 \<and> live w1 = live w \<and>
     length (m_pool (pools w1 r)) = length (m_pool (pools w r)) + length vs \<and>
     (None \<notin> set (m_pool (pools w r)) \<longrightarrow> None \<notin> set (m_pool (pools w1 r)))"
proof (induction vs arbitrary: w)
  case Nil
  then show ?case by simp
next
  case (Cons v vs)
  let ?w = "w\<lparr>heap := heap w @ [v], pools := Add r (Some (length (heap w))) (pools w)\<rparr>"
  from Cons [of ?w] show ?case
    by (auto simp: Add_def)
qed

text \<open>
  C1, as the code has it. On a pool none of whose idle entries is an empty pointer:
  after \<^verbatim>\<open>Add\<close> calls of new resources, \<^verbatim>\<open>Size()\<close> is what it was before plus the number
  of calls; and matched \<^verbatim>\<open>Acquire\<close>/end-of-lease pairs (on this or any other pool, in
  any interleaving) after them leave \<^verbatim>\<open>Size()\<close>, and the idle resources themselves, as
  the \<^verbatim>\<open>Add\<close> calls left them: none is lost and none is duplicated.
\<close>

theorem size_conserved:
  assumes "None \<notin> set (m_pool (pools w r))"
    and "matched prs []"
    and "exec w (map (\<lambda>v. OpAdd r (Some v)) vs @ prs) = Inr w'"
  shows "\<exists>w1. exec w (map (\<lambda>v. OpAdd r (Some v)) vs) = Inr w1 \<and> exec w1 prs = Inr w' \<and>
           fst (Size r (pools w1)) = fst (Size r (pools w)) + length vs \<and>
           fst (Size r (pools w')) = fst (Size r (pools w1)) \<and>
           mset (m_pool (pools w' r)) = mset (m_pool (pools w1 r))"
proof -
  from adds_exec [of w r vs] assms(1) obtain w1 where
    w1: "exec w (map (\<lambda>v. OpAdd r (Some v)) vs) = Inr w1"
      "length (m_pool (pools w1 r)) = length (m_pool (pools w r)) + length vs"
      "None \<notin> set (m_pool (pools w1 r))"
    by blast
  from assms(3) w1(1) have p: "exec w1 prs = Inr w'"
    by (simp add: exec_append)
  note n = matched_no_add [OF assms(2), of r]
  from assms(2) have "matched prs (map fst [])" by simp
  from matched_live [OF this _ p, of "live w1"] have "live w' = live w1" by simp
  then have "lent w' r = lent w1 r" by (simp add: lent_def)
  with conserve_exec [OF p n] have "mset (idle_of w' r) = mset (idle_of w1 r)"
    by simp
  then have "mset (map Some (idle_of w' r)) = mset (map Some (idle_of w1 r))"
    by simp
  then have m: "mset (m_pool (pools w' r)) = mset (m_pool (pools w1 r))"
    using nullfree_exec [OF w1(3) p n] w1(3)
    by (simp add: idle_of_def owned_nullfree)
  from mset_eq_length [OF m] have "fst (Size r (pools w')) = fst (Size r (pools w1))"
    by (simp add: Size_def)
  with w1 p m show ?thesis
    by (auto simp: Size_def)
qed

theorem size_conserved_witness:
  "None \<notin> set (m_pool (pools (init :: nat world) 0)) \<and>
   matched [OpAcquire 0 1, OpAcquire 0 2, OpRelease 1, OpRelease 2 :: nat op] [] \<and>
   exec (init :: nat world)
     (map (\<lambda>v. OpAdd 0 (Some v)) [10, 20] @
      [OpAcquire 0 1, OpAcquire 0 2, OpRelease 1, OpRelease 2]) =
     Inr \<lparr>heap = [10, 20], pools = new_store(0 := \<lparr>m_pool = [Some 0, Some 1]\<rparr>), live = []\<rparr> \<and>
   fst (Size 0 (new_store(0 := \<lparr>m_pool = [Some (0::nat), Some 1]\<rparr>))) =
     fst (Size 0 (pools (init :: nat world))) + 2"
proof -
  let ?prs = "[OpAcquire 0 1, OpAcquire 0 2, OpRelease 1, OpRelease 2 :: nat op]"
  let ?wa = "\<lparr>heap = [10, 20 :: nat], pools = new_store(0 := \<lparr>m_pool = [Some 0, Some 1]\<rparr>),
              live = []\<rparr>"
  have a: "None \<notin> set (m_pool (pools (init :: nat world) 0))"
    by (simp add: init_def)
  have b: "matched ?prs []"
    by simp
  have c: "exec init (map (\<lambda>v. OpAdd 0 (Some v)) [10, 20] @ ?prs) = Inr ?wa"
    by (simp add: init_def Add_def Acquire_def ptrType_dtor_def deleter_def)
  from size_conserved [OF a b c] have
    "fst (Size 0 (pools ?wa)) = fst (Size 0 (pools (init :: nat world))) + length [10, 20 :: nat]"
    by auto
  with a b c show ?thesis by simp
qed

text \<open>
  C1 as stated fails twice over. The \<^verbatim>\<open>Add\<close> calls belong to the sequence, so
  \<^verbatim>\<open>Size()\<close> after it is not \<^verbatim>\<open>Size()\<close> before it: one \<^verbatim>\<open>Add\<close> on the empty pool takes it
  from 0 to 1. And the pairs alone do not keep \<^verbatim>\<open>Size()\<close> when an idle entry is an
  empty pointer: after \<^verbatim>\<open>Add(nullptr)\<close> the size is 1, and one matched
  \<^verbatim>\<open>Acquire\<close>/end-of-lease pair later it is 0.
\<close>

theorem size_conserved_counterexample:
  "exec (init :: nat world) [OpAdd 0 (Some 7)] =
     Inr \<lparr>heap = [7], pools = new_store(0 := \<lparr>m_pool = [Some 0]\<rparr>), live = []\<rparr> \<and>
   fst (Size 0 (pools (init :: nat world))) = 0 \<and>
   fst (Size 0 (new_store(0 := \<lparr>m_pool = [Some (0::nat)]\<rparr>))) = 1 \<and>
   exec (init :: nat world) [OpAdd 0 None] =
     Inr \<lparr>heap = [], pools = new_store(0 := \<lparr>m_pool = [None]\<rparr>), live = []\<rparr> \<and>
   fst (Size 0 (new_store(0 := \<lparr>m_pool = [None :: nat option]\<rparr>))) = 1 \<and>
   matched [OpAcquire 0 1, OpRelease 1 :: nat op] [] \<and>
   exec \<lparr>heap = [] :: nat list, pools = new_store(0 := \<lparr>m_pool = [None]\<rparr>), live = []\<rparr>
     [OpAcquire 0 1, OpRelease 1] = Inr init"
  by (simp add: init_def Add_def Acquire_def ptrType_dtor_def Size_def)

lemma acquire_many:
  "distinct hs \<Longrightarrow> \<forall>h\<in>set hs. map_of (live w) h = None \<Longrightarrow>
   length hs \<le> length (m_pool (pools w r)) \<Longrightarrow>
   \<exists>w1 new. exec w (map (OpAcquire r) hs) = Inr w1 \<and>
     m_pool (pools w1 r) = drop (length hs) (m_pool (pools w r)) \<and>
     live w1 = new @ live w \<and> map fst new = rev hs"
proof (induction hs arbitrary: w)
  case Nil
  then show ?case by simp
next
  case (Cons h hs)
  from Cons.prems(3) obtain t rest where t: "m_pool (pools w r) = t # rest"
    by (cases "m_pool (pools w r)") auto
  let ?l = "\<lparr>get = t, capture_this = r\<rparr>"
  let ?wa = "w\<lparr>pools := (pools w)(r := (pools w r)\<lparr>m_pool := rest\<rparr>), live := (h, ?l) # live w\<rparr>"
  from Cons.prems(2) t have s: "step w (OpAcquire r h) = Inr ?wa"
    by (simp add: Acquire_Cons)
  have 1: "distinct hs" "\<forall>h'\<in>set hs. map_of (live ?wa) h' = None"
    "length hs \<le> length (m_pool (pools ?wa r))"
    using Cons.prems t by auto
  from Cons.IH [OF 1] obtain w1 new where
    w1: "exec ?wa (map (OpAcquire r) hs) = Inr w1"
      "m_pool (pools w1 r) = drop (length hs) (m_pool (pools ?wa r))"
      "live w1 = new @ live ?wa" "map fst new = rev hs"
    by blast
  have "exec w (map (OpAcquire r) (h # hs)) = Inr w1"
    using s w1(1) by simp
  moreover have "m_pool (pools w1 r) = drop (length (h # hs)) (m_pool (pools w r))"
    using w1(2) t by simp
  moreover have "live w1 = (new @ [(h, ?l)]) @ live w"
    using w1(3) by simp
  moreover have "map fst (new @ [(h, ?l)]) = rev (h # hs)"
    using w1(4) by simp
  ultimately show ?case by blast
qed

lemma release_many:
  "live w = new @ base \<Longrightarrow> mset hs' = mset (map fst new) \<Longrightarrow>
   \<exists>w'. exec w (map OpRelease hs') = Inr w' \<and> live w' = base"
proof (induction hs' arbitrary: w new)
  case Nil
  then show ?case by simp
next
  case (Cons h hs')
  from Cons.prems(2) have h: "h \<in> set (map fst new)"
    by (metis list.set_intros(1) mset_eq_setD)
  from map_of_append_fst [OF h, of base] obtain l where l: "map_of (live w) h = Some l"
    by (auto simp: Cons.prems(1))
  let ?wa = "w\<lparr>pools := ptrType_dtor l (pools w), live := drop_handle h (live w)\<rparr>"
  from l have s: "step w (OpRelease h) = Inr ?wa"
    by simp
  have 1: "live ?wa = drop_handle h new @ base"
    by (simp add: Cons.prems(1) drop_handle_append [OF h])
  have "mset hs' = mset (map fst new) - {#h#}"
    using Cons.prems(2) by (metis add_mset_remove_trivial mset.simps(2))
  then have 2: "mset hs' = mset (map fst (drop_handle h new))"
    by (simp add: fst_drop_handle)
  from Cons.IH [OF 1 2] s show ?case
    by simp
qed

text \<open>
  C5, as the code has it. On a pool of \<^verbatim>\<open>Size()\<close> \<open>n\<close> none of whose idle entries is an
  empty pointer: \<open>n\<close> calls of \<^verbatim>\<open>Acquire\<close> all succeed, the \<open>k\<close>-th leaving \<^verbatim>\<open>Size()\<close> at
  \<open>n - k\<close>; ending the \<open>n\<close> leases in any order \<open>hs'\<close> then succeeds and brings \<^verbatim>\<open>Size()\<close>
  back to \<open>n\<close>, with the same idle resources as at the start.
\<close>

theorem acquire_all_release_all:
  assumes nf: "None \<notin> set (m_pool (pools w r))"
    and len: "length hs = fst (Size r (pools w))"
    and dist: "distinct hs"
    and fresh: "\<forall>h\<in>set hs. map_of (live w) h = None"
    and perm: "mset hs' = mset hs"
  shows "\<exists>w1 w'. exec w (map (OpAcquire r) hs) = Inr w1 \<and> fst (Size r (pools w1)) = 0 \<and>
           exec w1 (map OpRelease hs') = Inr w' \<and>
           fst (Size r (pools w')) = length hs \<and>
           mset (m_pool (pools w' r)) = mset (m_pool (pools w r)) \<and>
           (\<forall>k\<le>length hs. \<exists>wk. exec w (map (OpAcquire r) (take k hs)) = Inr wk \<and>
              fst (Size r (pools wk)) = length hs - k)"
proof -
  from len have n: "length hs = length (m_pool (pools w r))"
    by (simp add: Size_def)
  from acquire_many [OF dist fresh, of r] n obtain w1 new where
    w1: "exec w (map (OpAcquire r) hs) = Inr w1"
      "m_pool (pools w1 r) = drop (length hs) (m_pool (pools w r))"
      "live w1 = new @ live w" "map fst new = rev hs"
    by auto
  from w1(2) n have z: "fst (Size r (pools w1)) = 0"
    by (simp add: Size_def)
  from perm w1(4) have "mset hs' = mset (map fst new)"
    by simp
  from release_many [OF w1(3) this] obtain w' where
    w': "exec w1 (map OpRelease hs') = Inr w'" "live w' = live w"
    by blast
  let ?cs = "map (OpAcquire r) hs @ map OpRelease hs'"
  have e: "exec w ?cs = Inr w'"
    using w1(1) w'(1) by (simp add: exec_append)
  have na: "\<forall>c\<in>set ?cs. \<not> is_add_to r c"
    by auto
  from w'(2) have "lent w' r = lent w r"
    by (simp add: lent_def)
  with conserve_exec [OF e na] have "mset (idle_of w' r) = mset (idle_of w r)"
    by simp
  then have "mset (map Some (idle_of w' r)) = mset (map Some (idle_of w r))"
    by simp
  then have m: "mset (m_pool (pools w' r)) = mset (m_pool (pools w r))"
    using nullfree_exec [OF nf e na] nf
    by (simp add: idle_of_def owned_nullfree)
  from mset_eq_length [OF m] n have s: "fst (Size r (pools w')) = length hs"
    by (simp add: Size_def)
  have p: "\<exists>wk. exec w (map (OpAcquire r) (take k hs)) = Inr wk \<and>
             fst (Size r (pools wk)) = length hs - k" if "k \<le> length hs" for k
  proof -
    have 1: "distinct (take k hs)" "\<forall>h\<in>set (take k hs). map_of (live w) h = None"
      "length (take k hs) \<le> length (m_pool (pools w r))"
      using dist fresh n that by (auto dest: in_set_takeD)
    from acquire_many [OF 1] obtain wk where
      "exec w (map (OpAcquire r) (take k hs)) = Inr wk"
      "m_pool (pools wk r) = drop (length (take k hs)) (m_pool (pools w r))"
      by blast
    with n that show ?thesis
      by (auto simp: Size_def)
  qed
  from w1(1) z w'(1) s m p show ?thesis
    by blast
qed

theorem acquire_all_release_all_witness:
  "None \<notin> set (m_pool ((new_store(0 := \<lparr>m_pool = [Some (1::nat), Some 0]\<rparr>)) 0)) \<and>
   length [1, 2 :: nat] = fst (Size 0 (new_store(0 := \<lparr>m_pool = [Some (1::nat), Some 0]\<rparr>))) \<and>
   distinct [1, 2 :: nat] \<and> mset [1, 2 :: nat] = mset [1, 2] \<and>
   (\<exists>w1 w'.
      exec \<lparr>heap = [10, 20 :: nat], pools = new_store(0 := \<lparr>m_pool = [Some 1, Some 0]\<rparr>),
             live = []\<rparr> (map (OpAcquire 0) [1, 2]) = Inr w1 \<and>
      fst (Size 0 (pools w1)) = 0 \<and>
      exec w1 (map OpRelease [1, 2]) = Inr w' \<and> fst (Size 0 (pools w')) = length [1, 2 :: nat])"
proof -
  let ?wa = "\<lparr>heap = [10, 20 :: nat], pools = new_store(0 := \<lparr>m_pool = [Some 1, Some 0]\<rparr>),
              live = []\<rparr>"
  have a: "None \<notin> set (m_pool (pools ?wa 0))"
    "length [1, 2 :: nat] = fst (Size 0 (pools ?wa))"
    "distinct [1, 2 :: nat]" "\<forall>h\<in>set [1, 2 :: nat]. map_of (live ?wa) h = None"
    "mset [1, 2 :: nat] = mset [1, 2]"
    by (simp_all add: Size_def)
  from acquire_all_release_all [OF a] have
    "\<exists>w1 w'. exec ?wa (map (OpAcquire 0) [1, 2]) = Inr w1 \<and> fst (Size 0 (pools w1)) = 0 \<and>
       exec w1 (map OpRelease [1, 2]) = Inr w' \<and> fst (Size 0 (pools w')) = length [1, 2 :: nat]"
    by blast
  with a show ?thesis by simp
qed

text \<open>
  C5 as stated fails on a pool whose one idle entry is an empty pointer (the state
  after \<^verbatim>\<open>Add(nullptr)\<close>): \<^verbatim>\<open>Size()\<close> is 1, the one \<^verbatim>\<open>Acquire\<close> succeeds and leaves 0, and
  the end of that lease re-inserts nothing: \<^verbatim>\<open>Size()\<close> stays 0.
\<close>

theorem acquire_all_release_all_counterexample:
  "fst (Size 0 (new_store(0 := \<lparr>m_pool = [None :: nat option]\<rparr>))) = 1 \<and>
   exec \<lparr>heap = [] :: nat list, pools = new_store(0 := \<lparr>m_pool = [None]\<rparr>), live = []\<rparr>
     (map (OpAcquire 0) [1]) =
     Inr \<lparr>heap = [], pools = new_store, live = [(1, \<lparr>get = None, capture_this = 0\<rparr>)]\<rparr> \<and>
   exec \<lparr>heap = [] :: nat list, pools = new_store,
          live = [(1, \<lparr>get = None, capture_this = 0\<rparr>)]\<rparr> (map OpRelease [1]) =
     Inr \<lparr>heap = [], pools = new_store, live = []\<rparr> \<and>
   fst (Size 0 (new_store :: nat store)) = 0"
  by (simp add: Acquire_def ptrType_dtor_def Size_def)

end
